theory Spec2Isabelle
  imports Complex_Main "HOL-Library.Multiset"
begin

section \<open>internal/database: the in-memory user repository\<close>

text \<open>
  The Go repository stores pointers: \<^verbatim>\<open>users map[int]*User\<close>. \<^verbatim>\<open>CreateUser\<close> writes the
  assigned identifier through the caller's pointer and keeps that very pointer in the
  map, so what a caller passes and what the repository holds are the same object. The
  model keeps this sharing: user records live in a store from addresses to records, and
  the repository's map holds addresses.

  Go's \<^verbatim>\<open>int\<close> has 32 or 64 bits, by the platform the program is built for. Its
  values are modelled as \<open>int\<close>, and the one arithmetic operation of the repository,
  \<^verbatim>\<open>r.nextID++\<close>, wraps around as Go's does: from \<open>MaxInt\<close> to \<open>MinInt\<close>. The platform
  is an argument of \<^verbatim>\<open>CreateUser\<close> and of everything that calls it.

  The \<^verbatim>\<open>sync.RWMutex\<close> field is not part of the state: every method takes the lock in its
  first statement and releases it on return, so a call running alone is the function of
  its body. The functions below are these bodies.
\<close>

datatype arch = Bits32 | Bits64

fun IntSize :: "arch \<Rightarrow> nat" where
  "IntSize Bits32 = 32"
| "IntSize Bits64 = 64"

definition MaxInt :: "arch \<Rightarrow> int" where
  "MaxInt p = 2 ^ (IntSize p - 1) - 1"

definition MinInt :: "arch \<Rightarrow> int" where
  "MinInt p = - (2 ^ (IntSize p - 1))"

text \<open>The value of an \<^verbatim>\<open>int\<close> computation whose exact result is \<open>k\<close>.\<close>

definition wrap :: "arch \<Rightarrow> int \<Rightarrow> int" where
  "wrap p k = (k - MinInt p) mod 2 ^ IntSize p + MinInt p"

type_synonym addr = nat

record User =
  ID :: int
  Username :: string
  Email :: string

text \<open>A \<^verbatim>\<open>*User\<close>: the nil pointer, or the address of a record in the store.\<close>

datatype ptr = nil | Ref addr

text \<open>
  \<^verbatim>\<open>errors.New(msg)\<close> is \<open>Error msg\<close>; dereferencing a nil \<^verbatim>\<open>*User\<close> is a run-time panic.
\<close>

datatype error = Error string | NilDereference

type_synonym heap = "addr \<Rightarrow> User"

text \<open>
  The map holds addresses rather than \<open>ptr\<close>s: both methods that write to it
  (\<^verbatim>\<open>CreateUser\<close>, \<^verbatim>\<open>UpdateUser\<close>) dereference the pointer first, so nil is never stored.
  The repositories of the model are those made by \<^verbatim>\<open>NewUserRepository\<close>, whose map is
  allocated.
\<close>

record InMemoryUserRepository =
  users :: "int \<rightharpoonup> addr"
  nextID :: int

type_synonym state = "heap \<times> InMemoryUserRepository"

definition NewUserRepository :: InMemoryUserRepository where
  "NewUserRepository = \<lparr>users = Map.empty, nextID = 1\<rparr>"

definition GetUser :: "int \<Rightarrow> InMemoryUserRepository \<Rightarrow> error + addr" where
  "GetUser i r =
     (case users r i of
        None \<Rightarrow> Inl (Error ''user not found'')
      | Some user \<Rightarrow> Inr user)"

text \<open>
  \<^verbatim>\<open>user.ID = r.nextID; r.nextID++; r.users[user.ID] = user; return nil\<close>
\<close>

fun CreateUser :: "arch \<Rightarrow> ptr \<Rightarrow> state \<Rightarrow> error + state" where
  "CreateUser p nil (h, r) = Inl NilDereference"
| "CreateUser p (Ref a) (h, r) =
     (let h1 = h(a := (h a)\<lparr>ID := nextID r\<rparr>);
          r1 = r\<lparr>nextID := wrap p (nextID r + 1)\<rparr>;
          r2 = r1\<lparr>users := (users r1)(ID (h1 a) \<mapsto> a)\<rparr>
      in Inr (h1, r2))"

text \<open>\<^verbatim>\<open>UpdateUser\<close> reads \<^verbatim>\<open>user.ID\<close> from the store and changes only the map.\<close>

fun UpdateUser :: "ptr \<Rightarrow> state \<Rightarrow> error + InMemoryUserRepository" where
  "UpdateUser nil (h, r) = Inl NilDereference"
| "UpdateUser (Ref a) (h, r) =
     (if users r (ID (h a)) = None then Inl (Error ''user not found'')
      else Inr (r\<lparr>users := (users r)(ID (h a) \<mapsto> a)\<rparr>))"

definition DeleteUser :: "int \<Rightarrow> InMemoryUserRepository \<Rightarrow> error + InMemoryUserRepository" where
  "DeleteUser i r =
     (if users r i = None then Inl (Error ''user not found'')
      else Inr (r\<lparr>users := (users r)(i := None)\<rparr>))"

text \<open>
  \<^verbatim>\<open>for _, user := range r.users { users = append(users, user) }\<close>. Go leaves the order
  of a \<^verbatim>\<open>range\<close> over a map unspecified, so the order \<open>ks\<close> in which the loop visits the
  keys is an argument; \<open>range_order m ks\<close> says that \<open>ks\<close> is such an order for \<open>m\<close>:
  every key once.
\<close>

definition range_order :: "(int \<rightharpoonup> addr) \<Rightarrow> int list \<Rightarrow> bool" where
  "range_order m ks \<longleftrightarrow> distinct ks \<and> set ks = dom m"

fun range_append :: "(int \<rightharpoonup> addr) \<Rightarrow> int list \<Rightarrow> addr list \<Rightarrow> addr list" where
  "range_append m [] acc = acc"
| "range_append m (k # ks) acc =
     (case m k of
        None \<Rightarrow> range_append m ks acc
      | Some user \<Rightarrow> range_append m ks (acc @ [user]))"

definition ListUsers :: "int list \<Rightarrow> InMemoryUserRepository \<Rightarrow> error + addr list" where
  "ListUsers ks r = Inr (range_append (users r) ks [])"

section \<open>Callers\<close>

text \<open>
  The handler \<^verbatim>\<open>Server.updateUser\<close> of the API, after the path and the body have been
  decoded: \<open>i\<close> is the identifier from the path and \<open>a\<close> the address of the handler's
  local \<^verbatim>\<open>user\<close>, holding the decoded body. \<^verbatim>\<open>user.ID = id\<close>, then
  \<^verbatim>\<open>s.userRepo.UpdateUser(&user)\<close>. Decoding and the HTTP response are not modelled.
\<close>

definition updateUser :: "int \<Rightarrow> addr \<Rightarrow> state \<Rightarrow> error + state" where
  "updateUser i a s =
     (let h1 = (fst s)(a := (fst s a)\<lparr>ID := i\<rparr>)
      in case UpdateUser (Ref a) (h1, snd s) of
           Inl e \<Rightarrow> Inl e
         | Inr r' \<Rightarrow> Inr (h1, r'))"

text \<open>
  A caller that issues calls one after another, as the tests of the repository do.
  An update is the handler's: the caller sets \<^verbatim>\<open>user.ID\<close> and calls \<^verbatim>\<open>UpdateUser\<close>; the
  assignment to \<^verbatim>\<open>user.ID\<close> stays when \<^verbatim>\<open>UpdateUser\<close> returns its error. (A bare
  \<^verbatim>\<open>UpdateUser(user)\<close> is the update with the identifier that the record carries, lemma
  \<open>step_Update_own_ID\<close>.) Any other call that returns an error leaves everything as it
  was. \<open>assigned\<close> collects what such a caller reads from \<^verbatim>\<open>user.ID\<close> right after each
  \<^verbatim>\<open>CreateUser\<close>, in order of the calls.
\<close>

datatype op = Create addr | Get int | Update int addr | Delete int | ListAll

fun step :: "arch \<Rightarrow> op \<Rightarrow> state \<Rightarrow> state" where
  "step p (Create a) s = (case CreateUser p (Ref a) s of Inl e \<Rightarrow> s | Inr s' \<Rightarrow> s')"
| "step p (Get i) s = s"
| "step p (Update i a) s =
     (case updateUser i a s of
        Inl e \<Rightarrow> ((fst s)(a := (fst s a)\<lparr>ID := i\<rparr>), snd s)
      | Inr s' \<Rightarrow> s')"
| "step p (Delete i) s = (case DeleteUser i (snd s) of Inl e \<Rightarrow> s | Inr r' \<Rightarrow> (fst s, r'))"
| "step p ListAll s = s"

fun run :: "arch \<Rightarrow> op list \<Rightarrow> state \<Rightarrow> state" where
  "run p [] s = s"
| "run p (c # cs) s = run p cs (step p c s)"

fun assigned :: "arch \<Rightarrow> op list \<Rightarrow> state \<Rightarrow> int list" where
  "assigned p [] s = []"
| "assigned p (Create a # cs) s =
     ID (fst (step p (Create a) s) a) # assigned p cs (step p (Create a) s)"
| "assigned p (c # cs) s = assigned p cs (step p c s)"

fun is_create :: "op \<Rightarrow> bool" where
  "is_create (Create a) = True"
| "is_create c = False"

fun is_delete :: "op \<Rightarrow> bool" where
  "is_delete (Delete i) = True"
| "is_delete c = False"

text \<open>The number of \<^verbatim>\<open>CreateUser\<close> calls among \<open>cs\<close>.\<close>

definition creations :: "op list \<Rightarrow> int" where
  "creations cs = int (length (filter is_create cs))"

text \<open>
  \<open>unshared p cs s\<close>: in the run of \<open>cs\<close> from \<open>s\<close>, no call is given a record that the
  repository holds under another identifier at that moment. For \<^verbatim>\<open>CreateUser\<close> this
  means a record that the repository does not hold at all; for an update with
  identifier \<open>i\<close>, a record that it holds under \<open>i\<close> or not at all.
\<close>

fun unshared :: "arch \<Rightarrow> op list \<Rightarrow> state \<Rightarrow> bool" where
  "unshared p [] s = True"
| "unshared p (Create a # cs) s =
     (a \<notin> ran (users (snd s)) \<and> unshared p cs (step p (Create a) s))"
| "unshared p (Update i a # cs) s =
     (a \<notin> ran ((users (snd s))(i := None)) \<and> unshared p cs (step p (Update i a) s))"
| "unshared p (c # cs) s = unshared p cs (step p c s)"

text \<open>
  \<open>disturbs i a c\<close>: the call \<open>c\<close> deletes or updates the identifier \<open>i\<close>, or passes the
  record \<open>a\<close> to \<^verbatim>\<open>CreateUser\<close> or to an update.
\<close>

fun disturbs :: "int \<Rightarrow> addr \<Rightarrow> op \<Rightarrow> bool" where
  "disturbs i a (Create b) = (b = a)"
| "disturbs i a (Update j b) = (j = i \<or> b = a)"
| "disturbs i a (Delete j) = (j = i)"
| "disturbs i a c = False"

text \<open>
  The invariant of claim C10: every entry of the map leads to a record whose \<open>ID\<close> is the
  key, and the key is at least 1 and below the counter. The counter itself is at least 1
  (it starts there); without this an empty map with a counter below 1 would satisfy the
  rest and the next \<^verbatim>\<open>CreateUser\<close> would break it.
\<close>

definition keyed_by_id :: "state \<Rightarrow> bool" where
  "keyed_by_id s \<longleftrightarrow>
     1 \<le> nextID (snd s) \<and>
     (\<forall>k a. users (snd s) k = Some a \<longrightarrow> ID (fst s a) = k \<and> 1 \<le> k \<and> k < nextID (snd s))"

text \<open>The identifiers of the records that \<^verbatim>\<open>ListUsers\<close> returns, read from the store.\<close>

definition listed_ids :: "int list \<Rightarrow> state \<Rightarrow> error + int list" where
  "listed_ids ks s =
     (case ListUsers ks (snd s) of
        Inl e \<Rightarrow> Inl e
      | Inr us \<Rightarrow> Inr (map (\<lambda>a. ID (fst s a)) us))"

text \<open>
  Stores for examples. In \<open>zero_heap\<close> every record is the zero value of \<^verbatim>\<open>User\<close>.
  \<open>scenario_heap\<close> holds the three records of the scenario in the specification at the
  addresses 0, 1 and 2; the third carries an identifier of its own, 99.
\<close>

definition zero_heap :: heap where
  "zero_heap = (\<lambda>a. \<lparr>ID = 0, Username = [], Email = []\<rparr>)"

definition scenario_heap :: heap where
  "scenario_heap = zero_heap
     (0 := \<lparr>ID = 0, Username = ''a'', Email = ''a@x.com''\<rparr>,
      1 := \<lparr>ID = 0, Username = ''b'', Email = ''b@x.com''\<rparr>,
      2 := \<lparr>ID = 99, Username = ''a2'', Email = ''a2@x.com''\<rparr>)"

section \<open>pkg/calculator\<close>

text \<open>
  The calculator works on \<^verbatim>\<open>float64\<close>. Its four methods do one floating-point operation
  each, and \<^verbatim>\<open>Divide\<close> compares the divisor with 0 first. The operations themselves are
  arguments of the model (\<open>fadd\<close>, \<open>fsub\<close>, \<open>fmul\<close>, \<open>fdiv\<close> and the test
  \<^verbatim>\<open>b == 0\<close> as \<open>is_zero\<close>), so what is proved holds for IEEE 754 arithmetic and says
  nothing about rounding.
\<close>

record 'f float64_ops =
  fadd :: "'f \<Rightarrow> 'f \<Rightarrow> 'f"
  fsub :: "'f \<Rightarrow> 'f \<Rightarrow> 'f"
  fmul :: "'f \<Rightarrow> 'f \<Rightarrow> 'f"
  fdiv :: "'f \<Rightarrow> 'f \<Rightarrow> 'f"
  is_zero :: "'f \<Rightarrow> bool"

definition Add :: "'f float64_ops \<Rightarrow> 'f \<Rightarrow> 'f \<Rightarrow> 'f" where
  "Add F a b = fadd F a b"

definition Subtract :: "'f float64_ops \<Rightarrow> 'f \<Rightarrow> 'f \<Rightarrow> 'f" where
  "Subtract F a b = fsub F a b"

definition Multiply :: "'f float64_ops \<Rightarrow> 'f \<Rightarrow> 'f \<Rightarrow> 'f" where
  "Multiply F a b = fmul F a b"

definition Divide :: "'f float64_ops \<Rightarrow> 'f \<Rightarrow> 'f \<Rightarrow> error + 'f" where
  "Divide F a b =
     (if is_zero F b then Inl (Error ''division by zero'')
      else Inr (fdiv F a b))"

text \<open>The operations on the rationals, for examples with exact results.\<close>

definition rat_ops :: "rat float64_ops" where
  "rat_ops = \<lparr>fadd = (+), fsub = (-), fmul = (*), fdiv = (/), is_zero = (\<lambda>b. b = 0)\<rparr>"

section \<open>The range of \<^verbatim>\<open>int\<close>, and the effect of a call\<close>

lemma MinInt_le_MaxInt: "MinInt p < 0 \<and> 2 ^ 31 - 1 \<le> MaxInt p"
  by (cases p) (simp_all add: MinInt_def MaxInt_def)

lemma wrap_id: "MinInt p \<le> k \<Longrightarrow> k \<le> MaxInt p \<Longrightarrow> wrap p k = k"
  by (cases p) (simp_all add: wrap_def MinInt_def MaxInt_def)

lemma wrap_small: "0 \<le> k \<Longrightarrow> k < 2 ^ 31 \<Longrightarrow> wrap p k = k"
  using MinInt_le_MaxInt [of p] by (intro wrap_id) simp_all

lemma wrap_MaxInt: "wrap p (MaxInt p + 1) = MinInt p"
  by (cases p) (simp_all add: wrap_def MinInt_def MaxInt_def)

lemma wrap_range: "MinInt p \<le> wrap p k \<and> wrap p k \<le> MaxInt p"
  by (cases p) (simp_all add: wrap_def MinInt_def MaxInt_def)

lemma step_Create:
  "step p (Create a) (h, r) =
     (h(a := (h a)\<lparr>ID := nextID r\<rparr>),
      r\<lparr>nextID := wrap p (nextID r + 1), users := (users r)(nextID r \<mapsto> a)\<rparr>)"
  by (simp add: Let_def)

lemma step_Update:
  "step p (Update i a) (h, r) =
     (h(a := (h a)\<lparr>ID := i\<rparr>),
      if users r i = None then r else r\<lparr>users := (users r)(i \<mapsto> a)\<rparr>)"
  by (auto simp: updateUser_def Let_def)

lemma step_Update_own_ID:
  "step p (Update (ID (h a)) a) (h, r) =
     (h, case UpdateUser (Ref a) (h, r) of Inl e \<Rightarrow> r | Inr r' \<Rightarrow> r')"
  by (auto simp: updateUser_def Let_def)

lemma step_Delete:
  "step p (Delete i) (h, r) =
     (h, if users r i = None then r else r\<lparr>users := (users r)(i := None)\<rparr>)"
  by (simp add: DeleteUser_def)

text \<open>At \<open>MaxInt\<close> the increment wraps around.\<close>

lemma CreateUser_at_MaxInt:
  "nextID r = MaxInt p \<Longrightarrow>
     \<exists>h' r'. CreateUser p (Ref a) (h, r) = Inr (h', r') \<and> nextID r' = MinInt p"
  by (simp add: Let_def wrap_MaxInt)

lemma nextID_step:
  "nextID (snd (step p c s)) =
     (if is_create c then wrap p (nextID (snd s) + 1) else nextID (snd s))"
  by (cases c; cases s) (auto simp: Let_def DeleteUser_def updateUser_def)

lemma assigned_Cons:
  "assigned p (c # cs) s =
     (if is_create c then nextID (snd s) # assigned p cs (step p c s)
      else assigned p cs (step p c s))"
  by (cases c; cases s) (simp_all add: Let_def)

lemma creations_Cons:
  "creations (c # cs) = (if is_create c then 1 + creations cs else creations cs)"
  by (simp add: creations_def)

lemma creations_nonneg: "0 \<le> creations cs"
  by (simp add: creations_def)

lemma creations_append: "creations (cs @ ds) = creations cs + creations ds"
  by (simp add: creations_def)


text \<open>While the counter stays within the range of \<^verbatim>\<open>int\<close>, it counts the creations.\<close>

lemma no_wrap:
  assumes "MinInt p \<le> nextID (snd s)" and "nextID (snd s) + creations cs \<le> MaxInt p"
  shows "nextID (snd (run p cs s)) = nextID (snd s) + creations cs
         \<and> assigned p cs s = [nextID (snd s) .. nextID (snd s) + creations cs - 1]"
  using assms
proof (induction cs arbitrary: s)
  case Nil
  show ?case by (simp add: creations_def)
next
  case (Cons c cs)
  show ?case
  proof (cases "is_create c")
    case True
    with Cons.prems creations_nonneg [of cs]
    have w: "wrap p (nextID (snd s) + 1) = nextID (snd s) + 1"
      by (intro wrap_id) (simp_all add: creations_Cons)
    with True have n: "nextID (snd (step p c s)) = nextID (snd s) + 1"
      by (simp add: nextID_step del: step.simps)
    with Cons.prems True
    have ih: "nextID (snd (run p cs (step p c s))) = nextID (snd s) + 1 + creations cs
         \<and> assigned p cs (step p c s)
             = [nextID (snd s) + 1 .. nextID (snd s) + 1 + creations cs - 1]"
      using Cons.IH [of "step p c s"] by (simp add: creations_Cons)
    have "[nextID (snd s) .. nextID (snd s) + creations (c # cs) - 1]
        = nextID (snd s) # [nextID (snd s) + 1 .. nextID (snd s) + 1 + creations cs - 1]"
      using True creations_nonneg [of cs]
      by (subst upto_rec1) (simp_all add: creations_Cons algebra_simps)
    with ih True show ?thesis
      by (simp add: assigned_Cons creations_Cons del: step.simps)
  next
    case False
    then have n: "nextID (snd (step p c s)) = nextID (snd s)"
      by (simp add: nextID_step del: step.simps)
    with Cons.prems False
    have "nextID (snd (run p cs (step p c s))) = nextID (snd s) + creations cs
         \<and> assigned p cs (step p c s) = [nextID (snd s) .. nextID (snd s) + creations cs - 1]"
      using Cons.IH [of "step p c s"] by (simp add: creations_Cons)
    with False show ?thesis
      by (simp add: assigned_Cons creations_Cons del: step.simps)
  qed
qed

lemma no_wrap_new:
  assumes "creations cs < MaxInt p"
  shows "nextID (snd (run p cs (h, NewUserRepository))) = 1 + creations cs"
    and "assigned p cs (h, NewUserRepository) = [1 .. creations cs]"
  using no_wrap [of p "(h, NewUserRepository)" cs] assms MinInt_le_MaxInt [of p]
  by (simp_all add: NewUserRepository_def)

section \<open>Runs of calls\<close>

lemma dom_step:
  "dom (users (snd (step p c s))) \<subseteq>
     dom (users (snd s)) \<union> (if is_create c then {nextID (snd s)} else {})"
  by (cases c; cases s)
    (auto simp: step_Create step_Update step_Delete simp del: step.simps(1,3,4)
       split: if_splits)

lemma dom_run:
  "dom (users (snd (run p cs s))) \<subseteq> dom (users (snd s)) \<union> set (assigned p cs s)"
proof (induction cs arbitrary: s)
  case Nil
  show ?case by simp
next
  case (Cons c cs)
  have "dom (users (snd (run p cs (step p c s)))) \<subseteq>
          dom (users (snd (step p c s))) \<union> set (assigned p cs (step p c s))"
    by (rule Cons.IH)
  with dom_step [of p c s] show ?case
    by (auto simp: assigned_Cons simp del: step.simps split: if_splits)
qed

lemma keys_lt_new:
  assumes "k \<in> dom (users (snd (run p cs (h, NewUserRepository))))"
    and "creations cs < MaxInt p"
  shows "1 \<le> k \<and> k < nextID (snd (run p cs (h, NewUserRepository)))"
proof -
  from assms(1) dom_run [of p cs "(h, NewUserRepository)"]
  have "k \<in> set (assigned p cs (h, NewUserRepository))"
    by (auto simp: NewUserRepository_def)
  with no_wrap_new [OF assms(2), of h] show ?thesis
    by simp
qed

lemma absent_stays:
  assumes "users (snd s) i = None" and "i < nextID (snd s)"
    and "MinInt p \<le> nextID (snd s)" and "nextID (snd s) + creations cs \<le> MaxInt p"
  shows "users (snd (run p cs s)) i = None"
proof -
  from no_wrap [OF assms(3,4)] assms(2) have "i \<notin> set (assigned p cs s)"
    by simp
  moreover have "i \<notin> dom (users (snd s))"
    using assms(1) by auto
  ultimately have "i \<notin> dom (users (snd (run p cs s)))"
    using dom_run [of p cs s] by blast
  then show ?thesis by auto
qed

lemma present_step:
  "users (snd s) i \<noteq> None \<Longrightarrow> c \<noteq> Delete i \<Longrightarrow> users (snd (step p c s)) i \<noteq> None"
  by (cases c; cases s)
    (auto simp: step_Create step_Update step_Delete simp del: step.simps(1,3,4))

lemma present_stays:
  "users (snd s) i \<noteq> None \<Longrightarrow> Delete i \<notin> set cs \<Longrightarrow> users (snd (run p cs s)) i \<noteq> None"
proof (induction cs arbitrary: s)
  case Nil
  then show ?case by simp
next
  case (Cons c cs)
  from Cons.prems have "users (snd (step p c s)) i \<noteq> None"
    by (intro present_step) auto
  with Cons.prems show ?case
    by (simp add: Cons.IH del: step.simps)
qed

lemma keyed_by_id_new: "keyed_by_id (h, NewUserRepository)"
  by (simp add: keyed_by_id_def NewUserRepository_def)

lemma keyed_by_id_pair:
  "keyed_by_id (h, r) \<longleftrightarrow>
     1 \<le> nextID r \<and> (\<forall>k a. users r k = Some a \<longrightarrow> ID (h a) = k \<and> 1 \<le> k \<and> k < nextID r)"
  by (simp add: keyed_by_id_def)

lemma keyed_by_id_Create:
  assumes inv: "keyed_by_id (h, r)" and new: "a \<notin> ran (users r)"
    and bound: "nextID r < MaxInt p"
  shows "keyed_by_id (step p (Create a) (h, r))"
proof -
  from inv have one: "1 \<le> nextID r"
    by (simp add: keyed_by_id_pair)
  with bound MinInt_le_MaxInt [of p] have w: "wrap p (nextID r + 1) = nextID r + 1"
    by (intro wrap_id) simp_all
  show ?thesis
    unfolding step_Create keyed_by_id_pair w
  proof (rule conjI; (intro allI impI)?)
    from one show "1 \<le> nextID (r\<lparr>nextID := nextID r + 1, users := (users r)(nextID r \<mapsto> a)\<rparr>)"
      by simp
  next
    fix k b
    assume st: "users (r\<lparr>nextID := nextID r + 1, users := (users r)(nextID r \<mapsto> a)\<rparr>) k = Some b"
    show "ID ((h(a := (h a)\<lparr>ID := nextID r\<rparr>)) b) = k \<and> 1 \<le> k
            \<and> k < nextID (r\<lparr>nextID := nextID r + 1, users := (users r)(nextID r \<mapsto> a)\<rparr>)"
    proof (cases "k = nextID r")
      case True
      with st one show ?thesis by simp
    next
      case False
      with st have u: "users r k = Some b" by simp
      with new have "b \<noteq> a" by (auto simp: ran_def)
      moreover from inv u have "ID (h b) = k \<and> 1 \<le> k \<and> k < nextID r"
        by (simp add: keyed_by_id_pair)
      ultimately show ?thesis by simp
    qed
  qed
qed

lemma keyed_by_id_Update:
  assumes inv: "keyed_by_id (h, r)" and own: "a \<notin> ran ((users r)(i := None))"
  shows "keyed_by_id (step p (Update i a) (h, r))"
proof -
  let ?h = "h(a := (h a)\<lparr>ID := i\<rparr>)"
  have other: "users r k \<noteq> Some a" if "k \<noteq> i" for k
  proof
    assume "users r k = Some a"
    with that have "((users r)(i := None)) k = Some a" by simp
    then have "a \<in> ran ((users r)(i := None))" by (rule ranI)
    with own show False by contradiction
  qed
  show ?thesis
  proof (cases "users r i")
    case None
    have "keyed_by_id (?h, r)"
      unfolding keyed_by_id_pair
    proof (rule conjI; (intro allI impI)?)
      from inv show "1 \<le> nextID r"
        by (simp add: keyed_by_id_pair)
    next
      fix k b
      assume st: "users r k = Some b"
      with None have "k \<noteq> i" by auto
      with other st have "b \<noteq> a" by auto
      with inv st show "ID (?h b) = k \<and> 1 \<le> k \<and> k < nextID r"
        by (simp add: keyed_by_id_pair)
    qed
    with None show ?thesis
      by (simp add: step_Update del: step.simps)
  next
    case (Some c)
    with inv have rng: "1 \<le> i \<and> i < nextID r"
      by (simp add: keyed_by_id_pair)
    have "keyed_by_id (?h, r\<lparr>users := (users r)(i \<mapsto> a)\<rparr>)"
      unfolding keyed_by_id_pair
    proof (rule conjI; (intro allI impI)?)
      from inv show "1 \<le> nextID (r\<lparr>users := (users r)(i \<mapsto> a)\<rparr>)"
        by (simp add: keyed_by_id_pair)
    next
      fix k b
      assume st: "users (r\<lparr>users := (users r)(i \<mapsto> a)\<rparr>) k = Some b"
      show "ID (?h b) = k \<and> 1 \<le> k \<and> k < nextID (r\<lparr>users := (users r)(i \<mapsto> a)\<rparr>)"
      proof (cases "k = i")
        case True
        with st rng show ?thesis by simp
      next
        case False
        with st have u: "users r k = Some b" by simp
        with other False have "b \<noteq> a" by auto
        with inv u show ?thesis by (simp add: keyed_by_id_pair)
      qed
    qed
    with Some show ?thesis
      by (simp add: step_Update del: step.simps)
  qed
qed

lemma keyed_by_id_Delete:
  assumes inv: "keyed_by_id (h, r)"
  shows "keyed_by_id (step p (Delete i) (h, r))"
proof (cases "users r i")
  case None
  with inv show ?thesis by (simp add: DeleteUser_def)
next
  case (Some c)
  have "keyed_by_id (h, r\<lparr>users := (users r)(i := None)\<rparr>)"
    unfolding keyed_by_id_pair
  proof (rule conjI; (intro allI impI)?)
    from inv show "1 \<le> nextID (r\<lparr>users := (users r)(i := None)\<rparr>)"
      by (simp add: keyed_by_id_pair)
  next
    fix k b
    assume st: "users (r\<lparr>users := (users r)(i := None)\<rparr>) k = Some b"
    then have "k \<noteq> i" by auto
    with st inv show "ID (h b) = k \<and> 1 \<le> k \<and> k < nextID (r\<lparr>users := (users r)(i := None)\<rparr>)"
      by (simp add: keyed_by_id_pair)
  qed
  with Some show ?thesis by (simp add: DeleteUser_def)
qed

lemma keyed_by_id_step:
  assumes inv: "keyed_by_id s"
    and new: "\<And>a. c = Create a \<Longrightarrow> a \<notin> ran (users (snd s)) \<and> nextID (snd s) < MaxInt p"
    and own: "\<And>i a. c = Update i a \<Longrightarrow> a \<notin> ran ((users (snd s))(i := None))"
  shows "keyed_by_id (step p c s)"
proof (cases s)
  case (Pair h r)
  show ?thesis
  proof (cases c)
    case (Create a)
    with inv new Pair show ?thesis
      using keyed_by_id_Create [of h r a p] by simp
  next
    case (Update i a)
    with inv own Pair show ?thesis
      using keyed_by_id_Update [of h r a i p] by simp
  next
    case (Delete i)
    with inv Pair show ?thesis
      using keyed_by_id_Delete [of h r p i] by simp
  qed (use inv in simp_all)
qed

lemma keyed_by_id_run:
  assumes "keyed_by_id s" and "unshared p cs s"
    and "nextID (snd s) + creations cs \<le> MaxInt p"
  shows "keyed_by_id (run p cs s)"
  using assms
proof (induction cs arbitrary: s)
  case Nil
  then show ?case by simp
next
  case (Cons c cs)
  from Cons.prems(1) have one: "1 \<le> nextID (snd s)"
    by (simp add: keyed_by_id_def)
  have "keyed_by_id (step p c s)"
  proof (rule keyed_by_id_step [OF Cons.prems(1)])
    fix a assume "c = Create a"
    with Cons.prems(2,3) creations_nonneg [of cs]
    show "a \<notin> ran (users (snd s)) \<and> nextID (snd s) < MaxInt p"
      by (simp add: creations_Cons)
  next
    fix i a assume "c = Update i a"
    with Cons.prems(2) show "a \<notin> ran ((users (snd s))(i := None))"
      by simp
  qed
  moreover have "unshared p cs (step p c s)"
    using Cons.prems(2) by (cases c) simp_all
  moreover have "nextID (snd (step p c s)) + creations cs \<le> MaxInt p"
  proof (cases "is_create c")
    case True
    with Cons.prems(3) one creations_nonneg [of cs] MinInt_le_MaxInt [of p]
    have "wrap p (nextID (snd s) + 1) = nextID (snd s) + 1"
      by (intro wrap_id) (simp_all add: creations_Cons)
    with True Cons.prems(3) show ?thesis
      by (simp add: nextID_step creations_Cons del: step.simps)
  next
    case False
    with Cons.prems(3) show ?thesis
      by (simp add: nextID_step creations_Cons del: step.simps)
  qed
  ultimately show ?case
    using Cons.IH [of "step p c s"] by (simp del: step.simps)
qed

lemma keyed_by_id_run_new:
  "unshared p cs (h, NewUserRepository) \<Longrightarrow> creations cs < MaxInt p \<Longrightarrow>
     keyed_by_id (run p cs (h, NewUserRepository))"
  by (rule keyed_by_id_run) (simp_all add: keyed_by_id_new, simp add: NewUserRepository_def)

section \<open>Listing, and what a run leaves alone\<close>

lemma range_append_map_filter: "range_append m ks acc = acc @ List.map_filter m ks"
  by (induction ks arbitrary: acc) (simp_all add: List.map_filter_simps split: option.split)

lemma map_filter_dom:
  "set ks \<subseteq> dom m \<Longrightarrow> List.map_filter m ks = map (\<lambda>k. the (m k)) ks"
  by (induction ks) (auto simp: List.map_filter_simps)

lemma ListUsers_range_order:
  "range_order (users r) ks \<Longrightarrow> ListUsers ks r = Inr (map (\<lambda>k. the (users r k)) ks)"
  by (simp add: ListUsers_def range_append_map_filter map_filter_dom range_order_def)

lemma dom_step_no_delete:
  "\<not> is_delete c \<Longrightarrow>
     dom (users (snd (step p c s))) =
       dom (users (snd s)) \<union> (if is_create c then {nextID (snd s)} else {})"
  by (cases c; cases s)
    (auto simp: step_Create step_Update simp del: step.simps(1,3,4) split: if_splits)

lemma dom_run_no_delete:
  "filter is_delete cs = [] \<Longrightarrow>
     dom (users (snd (run p cs s))) = dom (users (snd s)) \<union> set (assigned p cs s)"
proof (induction cs arbitrary: s)
  case Nil
  show ?case by simp
next
  case (Cons c cs)
  from Cons.prems have c: "\<not> is_delete c" and cs: "filter is_delete cs = []"
    by (auto split: if_splits)
  from Cons.IH [OF cs, of "step p c s"] dom_step_no_delete [OF c, of p s]
  show ?case
    by (auto simp: assigned_Cons simp del: step.simps split: if_splits)
qed

lemma listed_ids_keyed:
  assumes "keyed_by_id s" and "range_order (users (snd s)) ks"
  shows "listed_ids ks s = Inr ks"
proof -
  have "ID (fst s (the (users (snd s) k))) = k" if "k \<in> set ks" for k
  proof -
    from that assms(2) obtain a where "users (snd s) k = Some a"
      by (auto simp: range_order_def)
    with assms(1) show ?thesis by (simp add: keyed_by_id_def)
  qed
  then have "map (\<lambda>k. ID (fst s (the (users (snd s) k)))) ks = ks"
    by (simp add: map_idI)
  with assms(2) show ?thesis
    by (simp add: listed_ids_def ListUsers_range_order o_def)
qed

lemma listed_distinct_keyed:
  assumes "keyed_by_id s" and "range_order (users (snd s)) ks"
  shows "distinct (map (\<lambda>k. the (users (snd s) k)) ks)"
proof -
  have "inj_on (\<lambda>k. the (users (snd s) k)) (set ks)"
  proof (rule inj_onI)
    fix k l
    assume k: "k \<in> set ks" and l: "l \<in> set ks"
      and e: "the (users (snd s) k) = the (users (snd s) l)"
    from k l assms(2) obtain a b where a: "users (snd s) k = Some a" and b: "users (snd s) l = Some b"
      by (auto simp: range_order_def)
    with e have "a = b" by simp
    moreover from a assms(1) have "ID (fst s a) = k"
      unfolding keyed_by_id_def by blast
    moreover from b assms(1) have "ID (fst s b) = l"
      unfolding keyed_by_id_def by blast
    ultimately show "k = l" by simp
  qed
  with assms(2) show ?thesis
    by (simp add: distinct_map range_order_def)
qed

lemma kept_step:
  assumes "users (snd s) i = Some a" and "i \<noteq> nextID (snd s)" and "\<not> disturbs i a c"
  shows "users (snd (step p c s)) i = Some a \<and> fst (step p c s) a = fst s a"
  using assms
  by (cases c; cases s)
    (auto simp: step_Create step_Update step_Delete simp del: step.simps(1,3,4))

lemma kept_run:
  assumes "users (snd s) i = Some a" and "i < nextID (snd s)"
    and "\<forall>c \<in> set cs. \<not> disturbs i a c"
    and "MinInt p \<le> nextID (snd s)" and "nextID (snd s) + creations cs \<le> MaxInt p"
  shows "users (snd (run p cs s)) i = Some a \<and> fst (run p cs s) a = fst s a"
  using assms
proof (induction cs arbitrary: s)
  case Nil
  then show ?case by simp
next
  case (Cons c cs)
  from Cons.prems(1,2,3) have k: "users (snd (step p c s)) i = Some a"
    and h: "fst (step p c s) a = fst s a"
    using kept_step [of s i a c p] by simp_all
  have n: "nextID (snd (step p c s)) = nextID (snd s) + (if is_create c then 1 else 0)"
  proof (cases "is_create c")
    case True
    with Cons.prems(4,5) creations_nonneg [of cs]
    have "wrap p (nextID (snd s) + 1) = nextID (snd s) + 1"
      by (intro wrap_id) (simp_all add: creations_Cons)
    with True show ?thesis
      by (simp add: nextID_step del: step.simps)
  next
    case False
    then show ?thesis
      by (simp add: nextID_step del: step.simps)
  qed
  from n Cons.prems(2) have "i < nextID (snd (step p c s))"
    by (simp split: if_splits)
  moreover from Cons.prems(3) have "\<forall>c \<in> set cs. \<not> disturbs i a c"
    by simp
  moreover from n Cons.prems(4) have "MinInt p \<le> nextID (snd (step p c s))"
    by (simp split: if_splits)
  moreover from n Cons.prems(5) have "nextID (snd (step p c s)) + creations cs \<le> MaxInt p"
    by (simp add: creations_Cons split: if_splits)
  ultimately have "users (snd (run p cs (step p c s))) i = Some a
      \<and> fst (run p cs (step p c s)) a = fst (step p c s) a"
    using Cons.IH [OF k] by blast
  with h show ?case
    by (simp del: step.simps)
qed

section \<open>The scenario of the specification\<close>

text \<open>
  Create \<open>a\<close>, create \<open>b\<close>, update 1 with \<open>a2\<close> (a record that carries the identifier 99),
  read 1, delete 2, read 2, list: the model gives the results that the specification
  lists.
\<close>

lemma scenario_of_the_specification:
  "assigned p [Create 0, Create 1] (scenario_heap, NewUserRepository) = [1, 2]
   \<and> (\<exists>h r. updateUser 1 2 (run p [Create 0, Create 1] (scenario_heap, NewUserRepository))
               = Inr (h, r)
         \<and> GetUser 1 r = Inr 2
         \<and> h 2 = \<lparr>ID = 1, Username = ''a2'', Email = ''a2@x.com''\<rparr>
         \<and> GetUser 2 (snd (step p (Delete 2) (h, r))) = Inl (Error ''user not found'')
         \<and> range_order (users (snd (step p (Delete 2) (h, r)))) [1]
         \<and> listed_ids [1] (step p (Delete 2) (h, r)) = Inr [1])"
  by (simp add: NewUserRepository_def scenario_heap_def Let_def updateUser_def GetUser_def
      DeleteUser_def range_order_def listed_ids_def ListUsers_def wrap_small)

section \<open>What breaks the invariant\<close>

text \<open>
  The repository keeps the caller's pointer, so a record that it holds can be passed to
  it again. An update with identifier 1 and the record held under 2 leaves the entry
  for 2 on a record whose \<open>ID\<close> is 1, and both listed records then carry 1.
\<close>

lemma update_with_a_held_record:
  "assigned p [Create 0, Create 1] (zero_heap, NewUserRepository) = [1, 2]
   \<and> users (snd (run p [Create 0, Create 1, Update 1 1] (zero_heap, NewUserRepository))) 2
       = Some 1
   \<and> ID (fst (run p [Create 0, Create 1, Update 1 1] (zero_heap, NewUserRepository)) 1) = 1
   \<and> listed_ids [1, 2] (run p [Create 0, Create 1, Update 1 1] (zero_heap, NewUserRepository))
       = Inr [1, 1]"
  by (simp add: NewUserRepository_def zero_heap_def Let_def updateUser_def listed_ids_def
      ListUsers_def wrap_small)

text \<open>
  A \<^verbatim>\<open>CreateUser\<close> that finds the counter at \<open>MaxInt\<close> stores the record under
  \<open>MaxInt\<close> and leaves the counter at \<open>MinInt\<close>, below every key.
\<close>

lemma create_at_MaxInt_breaks_keys:
  "keyed_by_id (h, \<lparr>users = Map.empty, nextID = MaxInt p\<rparr>)
   \<and> \<not> keyed_by_id (step p (Create a) (h, \<lparr>users = Map.empty, nextID = MaxInt p\<rparr>))"
  using MinInt_le_MaxInt [of p]
  by (simp add: keyed_by_id_pair step_Create wrap_MaxInt del: step.simps)

section \<open>The claims\<close>



text \<open>
  C3. For every repository state and every record passed in, \<^verbatim>\<open>CreateUser\<close> returns no
  error; the identifier the caller supplied has no influence on the outcome; the record
  gets the current value of the counter as its identifier and keeps its other fields; it
  is stored under that identifier and every other entry of the map stays; the counter
  is incremented once, as Go increments an \<^verbatim>\<open>int\<close>: by one whenever it is below
  \<open>MaxInt\<close>. The counter of a new repository is 1.
\<close>

theorem CreateUser_assigns_counter:
  "(\<exists>h' r'. CreateUser p (Ref a) (h, r) = Inr (h', r')
      \<and> h' = h(a := (h a)\<lparr>ID := nextID r\<rparr>)
      \<and> users r' = (users r)(nextID r \<mapsto> a)
      \<and> nextID r' = wrap p (nextID r + 1))
   \<and> (MinInt p \<le> nextID r \<and> nextID r < MaxInt p \<longrightarrow>
        (\<exists>h' r'. CreateUser p (Ref a) (h, r) = Inr (h', r') \<and> nextID r' = nextID r + 1))
   \<and> CreateUser p (Ref a) (h(a := (h a)\<lparr>ID := supplied\<rparr>), r) = CreateUser p (Ref a) (h, r)
   \<and> nextID NewUserRepository = 1"
  by (simp add: NewUserRepository_def Let_def wrap_id)

theorem CreateUser_assigns_counter_witness:
  "MinInt Bits64 \<le> nextID NewUserRepository
   \<and> nextID NewUserRepository < MaxInt Bits64
   \<and> (\<exists>h' r'. CreateUser Bits64 (Ref 2) (scenario_heap, NewUserRepository) = Inr (h', r')
         \<and> h' 2 = \<lparr>ID = 1, Username = ''a2'', Email = ''a2@x.com''\<rparr>
         \<and> users r' = [1 \<mapsto> 2] \<and> nextID r' = 2)"
proof -
  have b: "MinInt Bits64 \<le> nextID NewUserRepository \<and> nextID NewUserRepository < MaxInt Bits64"
    by (simp add: NewUserRepository_def MinInt_def MaxInt_def)
  have v: "(scenario_heap 2)\<lparr>ID := nextID NewUserRepository\<rparr>
             = \<lparr>ID = 1, Username = ''a2'', Email = ''a2@x.com''\<rparr>"
    "(users NewUserRepository)(nextID NewUserRepository \<mapsto> 2) = [1 \<mapsto> 2]"
    "nextID NewUserRepository + 1 = 2"
    by (simp_all add: NewUserRepository_def scenario_heap_def)
  from CreateUser_assigns_counter [of Bits64 2 scenario_heap NewUserRepository] b
  obtain h' r' where "CreateUser Bits64 (Ref 2) (scenario_heap, NewUserRepository) = Inr (h', r')"
    and "h' = scenario_heap(2 := (scenario_heap 2)\<lparr>ID := nextID NewUserRepository\<rparr>)"
    and "users r' = (users NewUserRepository)(nextID NewUserRepository \<mapsto> 2)"
    and "nextID r' = nextID NewUserRepository + 1"
    by auto
  with b v show ?thesis by simp
qed

text \<open>
  C4. When the map has an entry for \<open>i\<close>, the handler's update with path identifier \<open>i\<close>
  and any record succeeds, and \<^verbatim>\<open>GetUser(i)\<close> then returns that record: all its fields as
  they were passed, except that its \<open>ID\<close> is \<open>i\<close>, whatever identifier it carried. Nothing
  of the record held before remains: the entry for \<open>i\<close> now leads to the new record, and
  the rest of the map and the counter are unchanged. When the map has no entry for \<open>i\<close>
  the update returns "user not found". \<^verbatim>\<open>UpdateUser\<close> on its own puts the record under
  the identifier it carries.
\<close>

theorem update_then_get:
  "(users r i \<noteq> None \<longrightarrow>
      (\<exists>r'. updateUser i a (h, r) = Inr (h(a := (h a)\<lparr>ID := i\<rparr>), r')
         \<and> GetUser i r' = Inr a
         \<and> users r' = (users r)(i \<mapsto> a) \<and> nextID r' = nextID r))
   \<and> (users r i = None \<longrightarrow> updateUser i a (h, r) = Inl (Error ''user not found''))
   \<and> (users r (ID (h a)) \<noteq> None \<longrightarrow>
      (\<exists>r'. UpdateUser (Ref a) (h, r) = Inr r' \<and> GetUser (ID (h a)) r' = Inr a))"
  by (auto simp: updateUser_def GetUser_def)

theorem update_then_get_witness:
  "users \<lparr>users = [1 \<mapsto> 0, 2 \<mapsto> 1], nextID = 3\<rparr> 1 \<noteq> None
   \<and> (\<exists>r'. updateUser 1 2 (scenario_heap, \<lparr>users = [1 \<mapsto> 0, 2 \<mapsto> 1], nextID = 3\<rparr>)
             = Inr (scenario_heap(2 := \<lparr>ID = 1, Username = ''a2'', Email = ''a2@x.com''\<rparr>), r')
         \<and> GetUser 1 r' = Inr 2)
   \<and> users \<lparr>users = [1 \<mapsto> 0, 2 \<mapsto> 1], nextID = 3\<rparr> 99 = None
   \<and> updateUser 99 2 (scenario_heap, \<lparr>users = [1 \<mapsto> 0, 2 \<mapsto> 1], nextID = 3\<rparr>)
        = Inl (Error ''user not found'')
   \<and> users \<lparr>users = [99 \<mapsto> 0], nextID = 100\<rparr> (ID (scenario_heap 2)) \<noteq> None
   \<and> (\<exists>r'. UpdateUser (Ref 2) (scenario_heap, \<lparr>users = [99 \<mapsto> 0], nextID = 100\<rparr>) = Inr r'
         \<and> GetUser (ID (scenario_heap 2)) r' = Inr 2)"
proof -
  let ?r = "\<lparr>users = [1 \<mapsto> 0, 2 \<mapsto> 1], nextID = 3\<rparr>"
  have p: "users ?r 1 \<noteq> None" and n: "users ?r 99 = None"
    by simp_all
  have rec: "(scenario_heap 2)\<lparr>ID := 1\<rparr> = \<lparr>ID = 1, Username = ''a2'', Email = ''a2@x.com''\<rparr>"
    by (simp add: scenario_heap_def)
  from update_then_get [of ?r 1 2 scenario_heap] p
  have "\<exists>r'. updateUser 1 2 (scenario_heap, ?r)
             = Inr (scenario_heap(2 := (scenario_heap 2)\<lparr>ID := 1\<rparr>), r')
         \<and> GetUser 1 r' = Inr 2"
    by blast
  moreover from update_then_get [of ?r 99 2 scenario_heap] n
  have "updateUser 99 2 (scenario_heap, ?r) = Inl (Error ''user not found'')"
    by blast
  moreover have q: "users \<lparr>users = [99 \<mapsto> 0], nextID = 100\<rparr> (ID (scenario_heap 2)) \<noteq> None"
    by (simp add: scenario_heap_def)
  moreover from update_then_get [of "\<lparr>users = [99 \<mapsto> 0], nextID = 100\<rparr>" _ 2 scenario_heap] q
  have "\<exists>r'. UpdateUser (Ref 2) (scenario_heap, \<lparr>users = [99 \<mapsto> 0], nextID = 100\<rparr>) = Inr r'
         \<and> GetUser (ID (scenario_heap 2)) r' = Inr 2"
    by blast
  ultimately show ?thesis
    using p n by (simp only: rec) blast
qed



text \<open>
  C6. \<^verbatim>\<open>DeleteUser(i)\<close> returns the error "user not found" when the map has no entry for
  \<open>i\<close>. Otherwise it removes the entry and nothing else; after that \<^verbatim>\<open>GetUser(i)\<close> returns
  "user not found", and so does a second \<^verbatim>\<open>DeleteUser(i)\<close>.
\<close>

theorem DeleteUser_not_found_or_removes:
  "(users r i = None \<longrightarrow> DeleteUser i r = Inl (Error ''user not found''))
   \<and> (users r i \<noteq> None \<longrightarrow>
        (\<exists>r'. DeleteUser i r = Inr r'
           \<and> users r' = (users r)(i := None)
           \<and> nextID r' = nextID r
           \<and> GetUser i r' = Inl (Error ''user not found'')
           \<and> DeleteUser i r' = Inl (Error ''user not found'')))"
  by (simp add: DeleteUser_def GetUser_def)

theorem DeleteUser_not_found_or_removes_witness:
  "users NewUserRepository 7 = None
   \<and> DeleteUser 7 NewUserRepository = Inl (Error ''user not found'')
   \<and> users (snd (run Bits64 [Create 0] (zero_heap, NewUserRepository))) 1 \<noteq> None
   \<and> (\<exists>r'. DeleteUser 1 (snd (run Bits64 [Create 0] (zero_heap, NewUserRepository))) = Inr r'
         \<and> GetUser 1 r' = Inl (Error ''user not found'')
         \<and> DeleteUser 1 r' = Inl (Error ''user not found''))"
proof -
  have n: "users NewUserRepository 7 = None"
    by (simp add: NewUserRepository_def)
  have p: "users (snd (run Bits64 [Create 0] (zero_heap, NewUserRepository))) 1 \<noteq> None"
    by (simp add: NewUserRepository_def Let_def)
  from DeleteUser_not_found_or_removes [of NewUserRepository 7] n
  have "DeleteUser 7 NewUserRepository = Inl (Error ''user not found'')"
    by blast
  moreover from DeleteUser_not_found_or_removes
                  [of "snd (run Bits64 [Create 0] (zero_heap, NewUserRepository))" 1] p
  have "\<exists>r'. DeleteUser 1 (snd (run Bits64 [Create 0] (zero_heap, NewUserRepository))) = Inr r'
         \<and> GetUser 1 r' = Inl (Error ''user not found'')
         \<and> DeleteUser 1 r' = Inl (Error ''user not found'')"
    by blast
  ultimately show ?thesis using n p by blast
qed

text \<open>
  C7 (as amended). Right after \<^verbatim>\<open>CreateUser\<close> has given a record the identifier \<open>i\<close>,
  \<^verbatim>\<open>GetUser(i)\<close> returns that record, which is the record passed in with \<open>ID\<close> set to
  \<open>i\<close>. After any further calls among which there is no \<^verbatim>\<open>DeleteUser(i)\<close>,
  \<^verbatim>\<open>GetUser(i)\<close> still returns a record. It is the same record with the same content
  when moreover none of these calls is an update of \<open>i\<close> or passes the same record to
  \<^verbatim>\<open>CreateUser\<close> or to an update, and the counter stays below \<open>MaxInt\<close>. In a repository
  that started new, \<^verbatim>\<open>GetUser\<close> returns "user not found" for every identifier that no
  \<^verbatim>\<open>CreateUser\<close> has handed out; and for every identifier whose record a
  \<^verbatim>\<open>DeleteUser\<close> has removed, whatever calls follow, as long as the whole run has fewer
  than \<open>MaxInt\<close> creations.
\<close>

theorem get_after_create_and_not_found:
  "(\<exists>h' r'. CreateUser p (Ref a) (h, r) = Inr (h', r')
       \<and> GetUser (ID (h' a)) r' = Inr a \<and> h' a = (h a)\<lparr>ID := nextID r\<rparr>)
   \<and> (Delete (nextID r) \<notin> set cs \<longrightarrow>
        (\<exists>b. GetUser (nextID r) (snd (run p cs (step p (Create a) (h, r)))) = Inr b))
   \<and> (filter (disturbs (nextID r) a) cs = []
        \<and> MinInt p \<le> nextID r \<and> nextID r + creations cs < MaxInt p \<longrightarrow>
        GetUser (nextID r) (snd (run p cs (step p (Create a) (h, r)))) = Inr a
        \<and> fst (run p cs (step p (Create a) (h, r))) a = (h a)\<lparr>ID := nextID r\<rparr>)
   \<and> (i \<notin> set (assigned p ds (h0, NewUserRepository)) \<longrightarrow>
        GetUser i (snd (run p ds (h0, NewUserRepository))) = Inl (Error ''user not found''))
   \<and> (DeleteUser j (snd (run p ds (h0, NewUserRepository))) = Inr r''
        \<and> creations (ds @ es) < MaxInt p \<longrightarrow>
        GetUser j (snd (run p es (step p (Delete j) (run p ds (h0, NewUserRepository)))))
          = Inl (Error ''user not found''))"
proof (intro conjI impI)
  show "\<exists>h' r'. CreateUser p (Ref a) (h, r) = Inr (h', r')
       \<and> GetUser (ID (h' a)) r' = Inr a \<and> h' a = (h a)\<lparr>ID := nextID r\<rparr>"
    by (simp add: Let_def GetUser_def)
next
  let ?s = "step p (Create a) (h, r)"
  assume "Delete (nextID r) \<notin> set cs"
  moreover have "users (snd ?s) (nextID r) \<noteq> None"
    by (simp add: Let_def)
  ultimately have "users (snd (run p cs ?s)) (nextID r) \<noteq> None"
    by (intro present_stays)
  then show "\<exists>b. GetUser (nextID r) (snd (run p cs ?s)) = Inr b"
    by (auto simp: GetUser_def)
next
  let ?s = "step p (Create a) (h, r)"
  assume a: "filter (disturbs (nextID r) a) cs = []
        \<and> MinInt p \<le> nextID r \<and> nextID r + creations cs < MaxInt p"
  then have nd: "\<forall>c \<in> set cs. \<not> disturbs (nextID r) a c"
    by (simp add: filter_empty_conv)
  from a creations_nonneg [of cs] have w: "wrap p (nextID r + 1) = nextID r + 1"
    by (intro wrap_id) simp_all
  have "users (snd ?s) (nextID r) = Some a" and "fst ?s a = (h a)\<lparr>ID := nextID r\<rparr>"
    and "nextID (snd ?s) = nextID r + 1"
    by (simp_all add: Let_def w)
  with a nd have k: "users (snd (run p cs ?s)) (nextID r) = Some a
      \<and> fst (run p cs ?s) a = (h a)\<lparr>ID := nextID r\<rparr>"
    using kept_run [of ?s "nextID r" a cs p] by (simp del: step.simps)
  from k show "GetUser (nextID r) (snd (run p cs ?s)) = Inr a"
    by (simp add: GetUser_def)
  from k show "fst (run p cs ?s) a = (h a)\<lparr>ID := nextID r\<rparr>"
    by simp
next
  assume "i \<notin> set (assigned p ds (h0, NewUserRepository))"
  with dom_run [of p ds "(h0, NewUserRepository)"]
  have "users (snd (run p ds (h0, NewUserRepository))) i = None"
    by (auto simp: NewUserRepository_def)
  then show "GetUser i (snd (run p ds (h0, NewUserRepository))) = Inl (Error ''user not found'')"
    by (simp add: GetUser_def)
next
  let ?s = "run p ds (h0, NewUserRepository)"
  assume a: "DeleteUser j (snd ?s) = Inr r'' \<and> creations (ds @ es) < MaxInt p"
  with creations_nonneg [of es] have b1: "creations ds < MaxInt p"
    by (simp add: creations_append)
  then have n: "nextID (snd ?s) = 1 + creations ds"
    by (rule no_wrap_new(1))
  from a have "j \<in> dom (users (snd ?s))"
    by (auto simp: DeleteUser_def split: if_splits)
  with b1 have "j < nextID (snd ?s)"
    using keys_lt_new [of j p ds h0] by simp
  moreover have "nextID (snd (step p (Delete j) ?s)) = nextID (snd ?s)"
    by (simp add: nextID_step del: step.simps)
  moreover from a have "users (snd (step p (Delete j) ?s)) j = None"
    by (auto simp: DeleteUser_def split: if_splits)
  moreover from a n creations_nonneg [of ds] MinInt_le_MaxInt [of p]
  have "MinInt p \<le> nextID (snd ?s)" and "nextID (snd ?s) + creations es \<le> MaxInt p"
    by (simp_all add: creations_append)
  ultimately have "users (snd (run p es (step p (Delete j) ?s))) j = None"
    by (intro absent_stays) (simp_all del: step.simps)
  then show "GetUser j (snd (run p es (step p (Delete j) ?s))) = Inl (Error ''user not found'')"
    by (simp add: GetUser_def)
qed

theorem get_after_create_and_not_found_witness:
  "Delete (nextID NewUserRepository) \<notin> set [Create 1, Update 2 2, Get 1, Delete 2]
   \<and> filter (disturbs (nextID NewUserRepository) 0) [Create 1, Update 2 2, Get 1, Delete 2] = []
   \<and> MinInt Bits64 \<le> nextID NewUserRepository
   \<and> nextID NewUserRepository + creations [Create 1, Update 2 2, Get 1, Delete 2] < MaxInt Bits64
   \<and> GetUser (nextID NewUserRepository)
        (snd (run Bits64 [Create 1, Update 2 2, Get 1, Delete 2]
           (step Bits64 (Create 0) (scenario_heap, NewUserRepository))))
       = Inr 0
   \<and> fst (run Bits64 [Create 1, Update 2 2, Get 1, Delete 2]
        (step Bits64 (Create 0) (scenario_heap, NewUserRepository))) 0
       = (scenario_heap 0)\<lparr>ID := nextID NewUserRepository\<rparr>
   \<and> 7 \<notin> set (assigned Bits64 [Create 0, Create 1] (scenario_heap, NewUserRepository))
   \<and> GetUser 7 (snd (run Bits64 [Create 0, Create 1] (scenario_heap, NewUserRepository)))
       = Inl (Error ''user not found'')
   \<and> DeleteUser 2 (snd (run Bits64 [Create 0, Create 1] (scenario_heap, NewUserRepository)))
       = Inr \<lparr>users = [1 \<mapsto> 0], nextID = 3\<rparr>
   \<and> creations ([Create 0, Create 1] @ [Create 2, Get 2]) < MaxInt Bits64
   \<and> GetUser 2 (snd (run Bits64 [Create 2, Get 2]
        (step Bits64 (Delete 2) (run Bits64 [Create 0, Create 1] (scenario_heap, NewUserRepository)))))
       = Inl (Error ''user not found'')"
proof -
  have c: "Delete (nextID NewUserRepository) \<notin> set [Create 1, Update 2 2, Get 1, Delete 2]"
    "filter (disturbs (nextID NewUserRepository) 0) [Create 1, Update 2 2, Get 1, Delete 2] = []"
    "MinInt Bits64 \<le> nextID NewUserRepository"
    "nextID NewUserRepository + creations [Create 1, Update 2 2, Get 1, Delete 2] < MaxInt Bits64"
    "creations ([Create 0, Create 1] @ [Create 2, Get 2]) < MaxInt Bits64"
    by (simp_all add: NewUserRepository_def creations_def MinInt_def MaxInt_def)
  have i: "7 \<notin> set (assigned Bits64 [Create 0, Create 1] (scenario_heap, NewUserRepository))"
    by (simp add: NewUserRepository_def Let_def wrap_small)
  have d: "DeleteUser 2 (snd (run Bits64 [Create 0, Create 1] (scenario_heap, NewUserRepository)))
       = Inr \<lparr>users = [1 \<mapsto> 0], nextID = 3\<rparr>"
    by (simp add: NewUserRepository_def DeleteUser_def Let_def wrap_small)
  from get_after_create_and_not_found
         [of Bits64 0 scenario_heap NewUserRepository "[Create 1, Update 2 2, Get 1, Delete 2]"
             7 "[Create 0, Create 1]" scenario_heap 2
             "\<lparr>users = [1 \<mapsto> 0], nextID = 3\<rparr>" "[Create 2, Get 2]"]
       c i d
  show ?thesis by blast
qed

text \<open>
  C7 as stated fails when the record is passed to \<^verbatim>\<open>CreateUser\<close> a second time: there
  is no \<^verbatim>\<open>DeleteUser\<close> at all, the record stored under 1 had \<open>ID\<close> 1, and \<^verbatim>\<open>GetUser(1)\<close>
  then returns it with \<open>ID\<close> 2.
\<close>

theorem get_same_record_twice_counterexample:
  "assigned Bits64 [Create 0, Create 0] (scenario_heap, NewUserRepository) = [1, 2]
   \<and> Delete 1 \<notin> set [Create 0]
   \<and> fst (step Bits64 (Create 0) (scenario_heap, NewUserRepository)) 0
       = \<lparr>ID = 1, Username = ''a'', Email = ''a@x.com''\<rparr>
   \<and> GetUser 1 (snd (run Bits64 [Create 0] (step Bits64 (Create 0) (scenario_heap, NewUserRepository))))
       = Inr 0
   \<and> fst (run Bits64 [Create 0] (step Bits64 (Create 0) (scenario_heap, NewUserRepository))) 0
       = \<lparr>ID = 2, Username = ''a'', Email = ''a@x.com''\<rparr>"
  by (simp add: NewUserRepository_def scenario_heap_def Let_def GetUser_def wrap_small)

text \<open>
  C8 (as amended). \<^verbatim>\<open>ListUsers\<close> on a new repository, or on one whose map is empty,
  returns the empty list, and on any repository it returns a list and no error. After a
  run of calls on a new repository among which there is no \<^verbatim>\<open>DeleteUser\<close> and fewer
  than \<open>MaxInt\<close> creations, it returns as many entries as there were \<^verbatim>\<open>CreateUser\<close>
  calls, in whatever order the map is traversed. When moreover no call was given a
  record that the repository held under another identifier at that moment, the entries
  are different records and their identifiers are the assigned identifiers, each once.
\<close>

theorem list_after_creates:
  "ListUsers ks NewUserRepository = Inr []
   \<and> (users r0 = Map.empty \<longrightarrow> ListUsers ks r0 = Inr [])
   \<and> (\<exists>us. ListUsers ks r = Inr us)
   \<and> (filter is_delete cs = [] \<and> creations cs < MaxInt p
        \<and> range_order (users (snd (run p cs (h, NewUserRepository)))) ks' \<longrightarrow>
        (\<exists>us. ListUsers ks' (snd (run p cs (h, NewUserRepository))) = Inr us
           \<and> int (length us) = creations cs))
   \<and> (filter is_delete cs = [] \<and> creations cs < MaxInt p
        \<and> range_order (users (snd (run p cs (h, NewUserRepository)))) ks'
        \<and> unshared p cs (h, NewUserRepository) \<longrightarrow>
        (\<exists>us ids. ListUsers ks' (snd (run p cs (h, NewUserRepository))) = Inr us
           \<and> distinct us
           \<and> listed_ids ks' (run p cs (h, NewUserRepository)) = Inr ids
           \<and> mset ids = mset (assigned p cs (h, NewUserRepository))))"
proof (intro conjI impI)
  show "ListUsers ks NewUserRepository = Inr []"
    by (simp add: ListUsers_def range_append_map_filter NewUserRepository_def
        List.map_filter_def)
next
  assume "users r0 = Map.empty"
  then show "ListUsers ks r0 = Inr []"
    by (simp add: ListUsers_def range_append_map_filter List.map_filter_def)
next
  show "\<exists>us. ListUsers ks r = Inr us"
    by (simp add: ListUsers_def)
next
  let ?s0 = "(h, NewUserRepository)"
  assume a: "filter is_delete cs = [] \<and> creations cs < MaxInt p
        \<and> range_order (users (snd (run p cs ?s0))) ks'"
  then have up: "assigned p cs ?s0 = [1 .. creations cs]"
    by (simp add: no_wrap_new(2))
  from a have "set ks' = set (assigned p cs ?s0)" and "distinct ks'"
    by (simp_all add: range_order_def dom_run_no_delete NewUserRepository_def)
  moreover from up have "distinct (assigned p cs ?s0)"
    by simp
  ultimately have "length ks' = length (assigned p cs ?s0)"
    by (metis distinct_card)
  also from up creations_nonneg [of cs] have "int (length (assigned p cs ?s0)) = creations cs"
    by simp
  finally have "int (length ks') = creations cs" .
  with a show "\<exists>us. ListUsers ks' (snd (run p cs ?s0)) = Inr us
           \<and> int (length us) = creations cs"
    by (simp add: ListUsers_range_order)
next
  let ?s0 = "(h, NewUserRepository)"
  assume a: "filter is_delete cs = [] \<and> creations cs < MaxInt p
        \<and> range_order (users (snd (run p cs ?s0))) ks'
        \<and> unshared p cs ?s0"
  then have up: "assigned p cs ?s0 = [1 .. creations cs]"
    by (simp add: no_wrap_new(2))
  from a have "set ks' = set (assigned p cs ?s0)" and "distinct ks'"
    by (simp_all add: range_order_def dom_run_no_delete NewUserRepository_def)
  moreover from up have "distinct (assigned p cs ?s0)"
    by simp
  ultimately have m: "mset ks' = mset (assigned p cs ?s0)"
    by (simp add: set_eq_iff_mset_eq_distinct)
  from a have inv: "keyed_by_id (run p cs ?s0)"
    by (simp add: keyed_by_id_run_new)
  with a have "listed_ids ks' (run p cs ?s0) = Inr ks'"
    by (simp add: listed_ids_keyed)
  moreover from inv a have "distinct (map (\<lambda>k. the (users (snd (run p cs ?s0)) k)) ks')"
    by (simp add: listed_distinct_keyed)
  moreover from a have "ListUsers ks' (snd (run p cs ?s0))
      = Inr (map (\<lambda>k. the (users (snd (run p cs ?s0)) k)) ks')"
    by (simp add: ListUsers_range_order)
  ultimately show "\<exists>us ids. ListUsers ks' (snd (run p cs ?s0)) = Inr us
           \<and> distinct us
           \<and> listed_ids ks' (run p cs ?s0) = Inr ids
           \<and> mset ids = mset (assigned p cs ?s0)"
    using m by simp
qed

theorem list_after_creates_witness:
  "users \<lparr>users = Map.empty, nextID = 4\<rparr> = Map.empty
   \<and> ListUsers [] \<lparr>users = Map.empty, nextID = 4\<rparr> = Inr []
   \<and> filter is_delete [Create 0, Create 1, Update 1 2] = []
   \<and> creations [Create 0, Create 1, Update 1 2] < MaxInt Bits64
   \<and> range_order (users (snd (run Bits64 [Create 0, Create 1, Update 1 2]
        (scenario_heap, NewUserRepository)))) [2, 1]
   \<and> unshared Bits64 [Create 0, Create 1, Update 1 2] (scenario_heap, NewUserRepository)
   \<and> (\<exists>us. ListUsers [2, 1]
          (snd (run Bits64 [Create 0, Create 1, Update 1 2] (scenario_heap, NewUserRepository)))
            = Inr us
        \<and> int (length us) = creations [Create 0, Create 1, Update 1 2])
   \<and> (\<exists>us ids. ListUsers [2, 1]
          (snd (run Bits64 [Create 0, Create 1, Update 1 2] (scenario_heap, NewUserRepository)))
            = Inr us
        \<and> distinct us
        \<and> listed_ids [2, 1]
            (run Bits64 [Create 0, Create 1, Update 1 2] (scenario_heap, NewUserRepository))
              = Inr ids
        \<and> mset ids = mset (assigned Bits64 [Create 0, Create 1, Update 1 2]
                            (scenario_heap, NewUserRepository)))"
proof -
  have e: "users \<lparr>users = Map.empty, nextID = 4\<rparr> = Map.empty"
    by simp
  have d: "filter is_delete [Create 0, Create 1, Update 1 2] = []"
    by simp
  have b: "creations [Create 0, Create 1, Update 1 2] < MaxInt Bits64"
    by (simp add: creations_def MaxInt_def)
  have o: "range_order (users (snd (run Bits64 [Create 0, Create 1, Update 1 2]
        (scenario_heap, NewUserRepository)))) [2, 1]"
    by (auto simp: range_order_def NewUserRepository_def Let_def updateUser_def wrap_small)
  have n: "unshared Bits64 [Create 0, Create 1, Update 1 2] (scenario_heap, NewUserRepository)"
    by (auto simp: NewUserRepository_def Let_def ran_def wrap_small split: if_splits)
  from list_after_creates
         [of "[]" "\<lparr>users = Map.empty, nextID = 4\<rparr>" NewUserRepository
             "[Create 0, Create 1, Update 1 2]" Bits64 scenario_heap "[2, 1]"]
       e d b o n
  show ?thesis by blast
qed

text \<open>
  C8 as stated fails when a caller passes the same record to \<^verbatim>\<open>CreateUser\<close> twice: the
  second call overwrites the \<open>ID\<close> of the record that the first entry leads to. Two
  creations, identifiers 1 and 2 assigned, and both listed records carry 2.
\<close>

theorem list_same_record_twice_counterexample:
  "filter is_delete [Create 0, Create 0] = []
   \<and> range_order (users (snd (run Bits64 [Create 0, Create 0] (zero_heap, NewUserRepository))))
        [1, 2]
   \<and> assigned Bits64 [Create 0, Create 0] (zero_heap, NewUserRepository) = [1, 2]
   \<and> listed_ids [1, 2] (run Bits64 [Create 0, Create 0] (zero_heap, NewUserRepository))
       = Inr [2, 2]"
  by (auto simp: range_order_def NewUserRepository_def Let_def listed_ids_def ListUsers_def
      wrap_small)

text \<open>
  C9. \<^verbatim>\<open>Divide(a, b)\<close> returns the error "division by zero" exactly when \<^verbatim>\<open>b == 0\<close>
  holds, and otherwise the quotient of \<open>a\<close> by \<open>b\<close>; \<^verbatim>\<open>Add\<close>, \<^verbatim>\<open>Subtract\<close> and
  \<^verbatim>\<open>Multiply\<close> return the sum, the difference and the product, and have no error
  result, whatever the operands.
\<close>

theorem Divide_fails_iff_zero:
  "(Divide F a b = Inl (Error ''division by zero'') \<longleftrightarrow> is_zero F b)
   \<and> (\<not> is_zero F b \<longrightarrow> Divide F a b = Inr (fdiv F a b))
   \<and> Add F a b = fadd F a b
   \<and> Subtract F a b = fsub F a b
   \<and> Multiply F a b = fmul F a b"
  by (simp add: Divide_def Add_def Subtract_def Multiply_def)

theorem Divide_fails_iff_zero_witness:
  "is_zero rat_ops 0
   \<and> Divide rat_ops 5 0 = Inl (Error ''division by zero'')
   \<and> \<not> is_zero rat_ops 3
   \<and> Divide rat_ops 6 3 = Inr 2
   \<and> Add rat_ops 5 3 = 8
   \<and> Subtract rat_ops 5 3 = 2
   \<and> Multiply rat_ops 5 3 = 15
   \<and> Multiply rat_ops (- 1 / 2) 0 = 0"
proof -
  have z: "is_zero rat_ops 0" and nz: "\<not> is_zero rat_ops 3"
    by (simp_all add: rat_ops_def)
  have ops: "fdiv rat_ops 6 3 = 2" "fadd rat_ops 5 3 = 8" "fsub rat_ops 5 3 = 2"
    "fmul rat_ops 5 3 = 15" "fmul rat_ops (- 1 / 2) 0 = 0"
    by (simp_all add: rat_ops_def)
  from Divide_fails_iff_zero [of rat_ops 5 0] Divide_fails_iff_zero [of rat_ops 6 3]
       Divide_fails_iff_zero [of rat_ops 5 3] Divide_fails_iff_zero [of rat_ops "- 1 / 2" 0]
       z nz ops
  show ?thesis by simp
qed

text \<open>
  C10 (as amended). A new repository satisfies the invariant: the counter is at least 1,
  and every entry of the map leads to a record whose \<open>ID\<close> is the key, which is at
  least 1 and below the counter. Each of the five calls preserves it, provided that a
  \<^verbatim>\<open>CreateUser\<close> finds the counter below \<open>MaxInt\<close> and is given a record that the
  repository does not hold, and that an update is given a record that the repository
  does not hold under another identifier. So it holds after every run of calls on a new
  repository that has fewer than \<open>MaxInt\<close> creations and in which no call is given a
  record held under another identifier.
\<close>

theorem keyed_by_id_invariant:
  "keyed_by_id (h, NewUserRepository)
   \<and> (keyed_by_id s
        \<and> (\<forall>a. c = Create a \<longrightarrow> a \<notin> ran (users (snd s)) \<and> nextID (snd s) < MaxInt p)
        \<and> (\<forall>i a. c = Update i a \<longrightarrow> a \<notin> ran ((users (snd s))(i := None))) \<longrightarrow>
        keyed_by_id (step p c s))
   \<and> (unshared p cs (h, NewUserRepository) \<and> creations cs < MaxInt p \<longrightarrow>
        keyed_by_id (run p cs (h, NewUserRepository)))"
  using keyed_by_id_new keyed_by_id_step [of s c p] keyed_by_id_run_new by blast

theorem keyed_by_id_invariant_witness:
  "keyed_by_id (scenario_heap, NewUserRepository)
   \<and> 0 \<notin> ran (users (snd (scenario_heap, NewUserRepository)))
   \<and> nextID (snd (scenario_heap, NewUserRepository)) < MaxInt Bits32
   \<and> keyed_by_id (step Bits32 (Create 0) (scenario_heap, NewUserRepository))
   \<and> unshared Bits32 [Create 0, Create 1, Update 1 2, Update 2 1, Delete 2, Get 1, ListAll, Create 1]
        (scenario_heap, NewUserRepository)
   \<and> creations [Create 0, Create 1, Update 1 2, Update 2 1, Delete 2, Get 1, ListAll, Create 1]
        < MaxInt Bits32
   \<and> keyed_by_id
        (run Bits32 [Create 0, Create 1, Update 1 2, Update 2 1, Delete 2, Get 1, ListAll, Create 1]
           (scenario_heap, NewUserRepository))"
proof -
  have f: "0 \<notin> ran (users (snd (scenario_heap, NewUserRepository)))"
    "nextID (snd (scenario_heap, NewUserRepository)) < MaxInt Bits32"
    by (simp_all add: NewUserRepository_def MaxInt_def)
  have n: "unshared Bits32
        [Create 0, Create 1, Update 1 2, Update 2 1, Delete 2, Get 1, ListAll, Create 1]
        (scenario_heap, NewUserRepository)"
    by (auto simp: NewUserRepository_def DeleteUser_def updateUser_def Let_def ran_def
        wrap_small split: if_splits)
  have b: "creations
        [Create 0, Create 1, Update 1 2, Update 2 1, Delete 2, Get 1, ListAll, Create 1]
        < MaxInt Bits32"
    by (simp add: creations_def MaxInt_def)
  from keyed_by_id_invariant
         [of scenario_heap "(scenario_heap, NewUserRepository)" "Create 0" Bits32
             "[Create 0, Create 1, Update 1 2, Update 2 1, Delete 2, Get 1, ListAll, Create 1]"]
       f n b
  show ?thesis by blast
qed

text \<open>
  C10 as stated fails on the run that passes one record to \<^verbatim>\<open>CreateUser\<close> twice: the
  entry for key 1 then leads to a record whose \<open>ID\<close> is 2.
\<close>

theorem keyed_by_id_same_record_twice_counterexample:
  "users (snd (run Bits64 [Create 0, Create 0] (zero_heap, NewUserRepository))) 1 = Some 0
   \<and> ID (fst (run Bits64 [Create 0, Create 0] (zero_heap, NewUserRepository)) 0) = 2
   \<and> \<not> keyed_by_id (run Bits64 [Create 0, Create 0] (zero_heap, NewUserRepository))"
  by (simp add: keyed_by_id_def NewUserRepository_def Let_def zero_heap_def wrap_small)

end
